theory Spec2Isabelle
  imports Main "HOL-Library.Word"
begin

unbundle bit_operations_syntax

section \<open>Go value types used by main.go\<close>

text \<open>
  \<^verbatim>\<open>byte\<close> is \<^verbatim>\<open>uint8\<close>, \<^verbatim>\<open>rune\<close> is \<^verbatim>\<open>int32\<close> (read with \<open>sint\<close>),
  \<^verbatim>\<open>time.Duration\<close> is \<^verbatim>\<open>int64\<close> nanoseconds whose \<open>+\<close> and \<open>*\<close> wrap around,
  and \<^verbatim>\<open>uint\<close> (the type of the \<^verbatim>\<open>bits\<close> flag) is 64 bits wide on the usual targets.
\<close>

type_synonym byte = "8 word"
type_synonym rune = "32 word"
type_synonym duration = "64 word"
type_synonym uint = "64 word"

text \<open>Error values: \<^verbatim>\<open>io.EOF\<close>, \<^verbatim>\<open>io.ErrNoProgress\<close>, and any other I/O error.\<close>

datatype error = EOF | ErrNoProgress | IOError string

text \<open>The only panic of main.go: \<^verbatim>\<open>panic("too many bits")\<close>.\<close>

datatype panic = TooManyBits

section \<open>unicode/utf8\<close>

definition RuneError :: rune where
  "RuneError = 0xFFFD"

definition MaxRune :: rune where
  "MaxRune = 0x10FFFF"

text \<open>
  The table \<^verbatim>\<open>first\<close> of package utf8: \<^verbatim>\<open>as = 0xF0\<close> for ASCII, \<^verbatim>\<open>xx = 0xF1\<close> for
  an invalid first byte, otherwise the size in the low three bits and the index of the
  accept range for the second byte in the high four.
\<close>

definition first :: "byte \<Rightarrow> byte" where
  "first p0 =
     (if p0 < 0x80 then 0xF0
      else if p0 < 0xC2 then 0xF1
      else if p0 < 0xE0 then 0x02
      else if p0 = 0xE0 then 0x13
      else if p0 < 0xED then 0x03
      else if p0 = 0xED then 0x23
      else if p0 < 0xF0 then 0x03
      else if p0 = 0xF0 then 0x34
      else if p0 < 0xF4 then 0x04
      else if p0 = 0xF4 then 0x44
      else 0xF1)"

text \<open>\<^verbatim>\<open>acceptRanges\<close>: the bounds \<open>(lo, hi)\<close> of the second byte.\<close>

definition acceptRanges :: "nat \<Rightarrow> byte \<times> byte" where
  "acceptRanges i =
     (if i = 0 then (0x80, 0xBF)
      else if i = 1 then (0xA0, 0xBF)
      else if i = 2 then (0x80, 0x9F)
      else if i = 3 then (0x90, 0xBF)
      else if i = 4 then (0x80, 0x8F)
      else (0, 0))"

text \<open>
  \<^verbatim>\<open>utf8.DecodeRune(p)\<close>: the first rune of \<open>p\<close> and its width in bytes;
  \<open>(RuneError, 0)\<close> on empty input and \<open>(RuneError, 1)\<close> on an invalid or incomplete
  encoding. \<^verbatim>\<open>locb = 0x80\<close>, \<^verbatim>\<open>hicb = 0xBF\<close>, \<^verbatim>\<open>maskx = 0x3F\<close>,
  \<^verbatim>\<open>mask2 = 0x1F\<close>, \<^verbatim>\<open>mask3 = 0x0F\<close>, \<^verbatim>\<open>mask4 = 0x07\<close>.
\<close>

definition DecodeRune :: "byte list \<Rightarrow> rune \<times> nat" where
  "DecodeRune p =
     (let n = length p in
      if n < 1 then (RuneError, 0)
      else
        let p0 = p ! 0; x = first p0 in
        if x \<ge> 0xF0 then (if x = 0xF1 then RuneError else ucast p0, 1)
        else
          let sz = unat (x AND 7); accept = acceptRanges (unat (drop_bit 4 x)) in
          if n < sz then (RuneError, 1)
          else
            let b1 = p ! 1 in
            if b1 < fst accept \<or> snd accept < b1 then (RuneError, 1)
            else if sz \<le> 2 then
              (push_bit 6 (ucast (p0 AND 0x1F)) OR ucast (b1 AND 0x3F), 2)
            else
              let b2 = p ! 2 in
              if b2 < 0x80 \<or> 0xBF < b2 then (RuneError, 1)
              else if sz \<le> 3 then
                (push_bit 12 (ucast (p0 AND 0x0F)) OR push_bit 6 (ucast (b1 AND 0x3F))
                   OR ucast (b2 AND 0x3F), 3)
              else
                let b3 = p ! 3 in
                if b3 < 0x80 \<or> 0xBF < b3 then (RuneError, 1)
                else
                  (push_bit 18 (ucast (p0 AND 0x07)) OR push_bit 12 (ucast (b1 AND 0x3F))
                     OR push_bit 6 (ucast (b2 AND 0x3F)) OR ucast (b3 AND 0x3F), 4))"

text \<open>
  \<^verbatim>\<open>utf8.FullRune(p)\<close>: whether \<open>p\<close> begins with a full encoding of a rune; an invalid
  encoding counts as full, since it decodes to a width-1 error rune.
\<close>

definition FullRune :: "byte list \<Rightarrow> bool" where
  "FullRune p =
     (let n = length p in
      if n = 0 then False
      else
        let x = first (p ! 0) in
        if n \<ge> unat (x AND 7) then True
        else
          let accept = acceptRanges (unat (drop_bit 4 x)) in
          if n > 1 \<and> (p ! 1 < fst accept \<or> snd accept < p ! 1) then True
          else if n > 2 \<and> (p ! 2 < 0x80 \<or> 0xBF < p ! 2) then True
          else False)"

text \<open>
  The conversion \<^verbatim>\<open>string(b)\<close> of a rune: its UTF-8 encoding, and the encoding of
  U+FFFD for a value that is no valid code point (negative, above \<open>MaxRune\<close>, or a
  surrogate).
\<close>

definition string_of_rune :: "rune \<Rightarrow> byte list" where
  "string_of_rune r =
     (let i = uint r in
      if i \<le> 0x7F then [ucast r]
      else if i \<le> 0x7FF then
        [0xC0 OR ucast (drop_bit 6 r), 0x80 OR (ucast r AND 0x3F)]
      else if i > 0x10FFFF \<or> (0xD800 \<le> i \<and> i \<le> 0xDFFF) then [0xEF, 0xBF, 0xBD]
      else if i \<le> 0xFFFF then
        [0xE0 OR ucast (drop_bit 12 r), 0x80 OR (ucast (drop_bit 6 r) AND 0x3F),
         0x80 OR (ucast r AND 0x3F)]
      else
        [0xF0 OR ucast (drop_bit 18 r), 0x80 OR (ucast (drop_bit 12 r) AND 0x3F),
         0x80 OR (ucast (drop_bit 6 r) AND 0x3F), 0x80 OR (ucast r AND 0x3F)])"

section \<open>The observable world: writers, events, delay functions\<close>

text \<open>
  What a run does is recorded as a list of events, oldest first. A writer is named in
  an event by its name. \<open>Fprintf w fmt args\<close> is a call
  \<^verbatim>\<open>fmt.Fprintf(w, fmt, args...)\<close>. \<open>EvWrite w p e\<close> is a call \<^verbatim>\<open>w.Write(p)\<close> that
  returned the error \<open>e\<close>; \<open>EvFlush\<close>, \<open>EvFlushErr\<close> and \<open>EvSync\<close> are calls of
  \<^verbatim>\<open>Flush()\<close>, \<^verbatim>\<open>Flush() error\<close> and \<^verbatim>\<open>Sync() error\<close> (the last two with the result
  dropped); \<open>EvSleep d\<close> is \<^verbatim>\<open>time.Sleep(d)\<close>; \<open>EvPrint c\<close> is the print call \<open>c\<close>.
\<close>

datatype fmt_arg = ArgString "byte list" | ArgRune rune | ArgDuration duration

datatype print_call = Fprintf string string "fmt_arg list"

datatype event =
    EvWrite string "byte list" "error option"
  | EvFlush string
  | EvFlushErr string
  | EvSync string
  | EvSleep duration
  | EvPrint print_call

text \<open>
  The signature of a method, as far as the type switch of \<^verbatim>\<open>makeFlush\<close> tells them
  apart: \<^verbatim>\<open>func()\<close>, \<^verbatim>\<open>func() error\<close>, or anything else.
\<close>

datatype msig = NoResult | ErrorResult | OtherSig

text \<open>
  An \<^verbatim>\<open>io.Writer\<close>: its name, the method set of its dynamic type (a Go type has at
  most one method of a given name, hence a map from names), and what \<^verbatim>\<open>Write(p)\<close>
  returns after the events so far. The byte count that \<^verbatim>\<open>Write\<close> returns is dropped by
  main.go and is not modelled.
\<close>

record writer =
  w_name :: string
  w_methods :: "string \<rightharpoonup> msig"
  w_write :: "event list \<Rightarrow> byte list \<Rightarrow> error option"

text \<open>
  \<^verbatim>\<open>type patience func(rune) time.Duration\<close>. The delay functions of main.go have at
  most one effect, the print of the debug wrapper, so the model returns the print calls
  of the call with the duration.
\<close>

type_synonym patience = "rune \<Rightarrow> duration \<times> print_call list"

section \<open>main.go: the delay function and its debug wrapper\<close>

definition printImpatiently :: "writer \<Rightarrow> patience \<Rightarrow> patience" where
  "printImpatiently dst f =
     (\<lambda>b. let (delay, evs) = f b in
        (delay,
         evs @ [Fprintf (w_name dst) (''%q %U %s'' @ [CHR 0x0A])
                  [ArgString (string_of_rune b), ArgRune b, ArgDuration delay]]))"

text \<open>
  In \<^verbatim>\<open>rune((0x1 << bits) - 1)\<close> the untyped constant takes the type \<^verbatim>\<open>rune\<close>, so the
  shift and the subtraction are 32-bit; \<^verbatim>\<open>time.Duration(mask&b)\<close> sign-extends to 64
  bits.
\<close>

definition bePatient :: "uint \<Rightarrow> duration \<Rightarrow> duration \<Rightarrow> panic + patience" where
  "bePatient bits initial step =
     (if bits \<ge> 8 then Inl TooManyBits
      else
        let mask = (push_bit (unat bits) (0x1 :: rune)) - 1 in
        Inr (\<lambda>b. (initial + step * scast (mask AND b), [])))"

section \<open>main.go: flush detection\<close>

text \<open>The function that \<^verbatim>\<open>makeFlush\<close> returns, by what it calls.\<close>

datatype flush_action = CallFlush | CallFlushDropErr | CallSyncDropErr | Noop

definition makeFlush :: "writer \<Rightarrow> flush_action" where
  "makeFlush w =
     (if w_methods w ''Flush'' = Some NoResult then CallFlush
      else if w_methods w ''Flush'' = Some ErrorResult then CallFlushDropErr
      else if w_methods w ''Sync'' = Some ErrorResult then CallSyncDropErr
      else Noop)"


text \<open>Calling the bound flush action on the writer named \<open>nm\<close>.\<close>

definition run_flush :: "flush_action \<Rightarrow> string \<Rightarrow> event list \<Rightarrow> event list" where
  "run_flush act nm tr =
     (case act of
        CallFlush \<Rightarrow> tr @ [EvFlush nm]
      | CallFlushDropErr \<Rightarrow> tr @ [EvFlushErr nm]
      | CallSyncDropErr \<Rightarrow> tr @ [EvSync nm]
      | Noop \<Rightarrow> tr)"

section \<open>bufio: the rune scanner\<close>

text \<open>
  main.go reads its input through \<^verbatim>\<open>bufio.NewScanner(src)\<close> with the split function
  \<^verbatim>\<open>bufio.ScanRunes\<close>. \<^verbatim>\<open>errorRune\<close> is \<^verbatim>\<open>[]byte(string(utf8.RuneError))\<close>.
\<close>

definition errorRune :: "byte list" where
  "errorRune = string_of_rune RuneError"

text \<open>
  \<^verbatim>\<open>ScanRunes(data, atEOF)\<close> returns how far to advance and the token, if there is one
  (its error result is always nil). An ASCII byte and a valid encoding are returned as
  they stand; an encoding that is only incomplete asks for more data; an encoding
  error returns \<open>errorRune\<close> as the token and advances by one byte. The Scanner calls
  it with empty \<open>data\<close> only at the end of input.
\<close>

definition ScanRunes :: "byte list \<Rightarrow> bool \<Rightarrow> nat \<times> byte list option" where
  "ScanRunes data atEOF =
     (if atEOF \<and> length data = 0 then (0, None)
      else if data ! 0 < 0x80 then (1, Some (take 1 data))
      else
        let width = snd (DecodeRune data) in
        if width > 1 then (width, Some (take width data))
        else if \<not> atEOF \<and> \<not> FullRune data then (0, None)
        else (1, Some errorRune))"

text \<open>
  An \<^verbatim>\<open>io.Reader\<close> with a finite input: the byte slices that its successive \<^verbatim>\<open>Read\<close>
  calls return with a nil error (an empty slice is a read of no bytes), and the error
  of the call after the last of them (\<open>EOF\<close> at the end of the input). A call that
  returns bytes together with an error is, for the Scanner, the same as those bytes
  followed by the error.
\<close>

record reader =
  r_reads :: "byte list list"
  r_err :: error

definition Read :: "reader \<Rightarrow> byte list \<times> error option \<times> reader" where
  "Read r =
     (case r_reads r of
        [] \<Rightarrow> ([], Some (r_err r), r)
      | c # cs \<Rightarrow> (c, None, r\<lparr>r_reads := cs\<rparr>))"

text \<open>
  The state of a \<^verbatim>\<open>bufio.Scanner\<close>: its reader, the unread part of its buffer
  (\<^verbatim>\<open>s.buf[s.start:s.end]\<close>) and its sticky error \<^verbatim>\<open>s.err\<close>. A token of
  \<^verbatim>\<open>ScanRunes\<close> has at most four bytes, so the limit on the buffer's size is never
  reached and the model leaves it out.
\<close>

record scanner =
  s_r :: reader
  s_buf :: "byte list"
  s_err :: "error option"

definition NewScanner :: "reader \<Rightarrow> scanner" where
  "NewScanner r = \<lparr>s_r = r, s_buf = [], s_err = None\<rparr>"

definition setErr :: "scanner \<Rightarrow> error \<Rightarrow> scanner" where
  "setErr s err = (if s_err s = None \<or> s_err s = Some EOF then s\<lparr>s_err := Some err\<rparr> else s)"

text \<open>\<^verbatim>\<open>Scanner.Err\<close>: the first error that was not \<^verbatim>\<open>io.EOF\<close>.\<close>

definition Err :: "scanner \<Rightarrow> error option" where
  "Err s = (if s_err s = Some EOF then None else s_err s)"

text \<open>
  The read loop inside \<^verbatim>\<open>Scan\<close>: read until some bytes or an error arrive, and give
  up with \<^verbatim>\<open>io.ErrNoProgress\<close> after more than \<^verbatim>\<open>maxConsecutiveEmptyReads = 100\<close> reads
  of nothing.
\<close>

function read_more :: "scanner \<Rightarrow> nat \<Rightarrow> scanner" where
  "read_more s loop =
     (let (c, err, r') = Read (s_r s);
          s1 = s\<lparr>s_r := r', s_buf := s_buf s @ c\<rparr>
      in case err of
           Some e \<Rightarrow> setErr s1 e
         | None \<Rightarrow>
             if length c > 0 then s1
             else if loop + 1 > 100 then setErr s1 ErrNoProgress
             else read_more s1 (loop + 1))"
  by pat_completeness auto
termination
  by (relation "measure (\<lambda>(s, loop). length (r_reads (s_r s)))")
    (auto simp: Read_def split: list.splits)

declare read_more.simps [simp del]

text \<open>What is left to do before the scanner stops reading: the measure of \<open>Scan\<close>.\<close>

definition pending :: "scanner \<Rightarrow> nat" where
  "pending s = (if s_err s = None then 1 else 0) + length (r_reads (s_r s))"

lemma pending_read_more: "s_err s = None \<Longrightarrow> pending (read_more s loop) < pending s"
proof (induction s loop rule: read_more.induct)
  case (1 s loop)
  show ?case
  proof (cases "r_reads (s_r s)")
    case Nil
    with "1.prems" show ?thesis
      by (subst read_more.simps) (simp add: pending_def Read_def setErr_def)
  next
    case (Cons c cs)
    show ?thesis
    proof (cases "c = [] \<and> \<not> loop + 1 > 100")
      case True
      let ?s1 = "s\<lparr>s_r := (s_r s)\<lparr>r_reads := cs\<rparr>, s_buf := s_buf s @ c\<rparr>"
      have "pending (read_more ?s1 (loop + 1)) < pending ?s1"
        by (rule "1.IH") (use True Cons "1.prems" in \<open>simp_all add: Read_def\<close>)
      moreover have "read_more s loop = read_more ?s1 (loop + 1)"
        using True Cons by (subst read_more.simps) (simp add: Read_def)
      ultimately show ?thesis using Cons "1.prems"
        by (simp add: pending_def)
    next
      case False
      then show ?thesis using Cons "1.prems"
        by (subst read_more.simps) (auto simp add: Read_def pending_def setErr_def Let_def)
    qed
  qed
qed

lemma pending_read_more_buf:
  "s_err s = None \<Longrightarrow> pending (read_more (s\<lparr>s_buf := b\<rparr>) loop) < pending s"
  using pending_read_more [of "s\<lparr>s_buf := b\<rparr>" loop] by (simp add: pending_def)

text \<open>
  \<^verbatim>\<open>Scanner.Scan\<close>: \<open>Some t\<close> is the result true with the token \<open>t\<close> (what
  \<^verbatim>\<open>Scanner.Bytes\<close> then returns), \<open>None\<close> the result false. The split function is tried
  on the buffer when it holds bytes or an error is pending, with \<open>atEOF\<close> true once an
  error (\<^verbatim>\<open>io.EOF\<close> included) is pending; without a token the scanner stops if an error
  is pending and reads more otherwise.
\<close>

function Scan :: "scanner \<Rightarrow> byte list option \<times> scanner" where
  "Scan s =
     (let (advance, token) =
            (if s_buf s \<noteq> [] \<or> s_err s \<noteq> None
             then ScanRunes (s_buf s) (s_err s \<noteq> None) else (0, None));
          s1 = s\<lparr>s_buf := drop advance (s_buf s)\<rparr>
      in case token of
           Some t \<Rightarrow> (Some t, s1)
         | None \<Rightarrow>
             if s_err s1 \<noteq> None then (None, s1\<lparr>s_buf := []\<rparr>)
             else Scan (read_more s1 0))"
  by pat_completeness auto
termination
  by (relation "measure pending") (auto simp: pending_read_more_buf)

declare Scan.simps [simp del]

subsection \<open>Every token consumes input\<close>

lemma first_cases:
  "first b \<in> {0xF0, 0xF1, 0x02, 0x13, 0x03, 0x23, 0x34, 0x04, 0x44}"
  by (simp add: first_def)

lemma first_consider:
  obtains "first b = 0xF0" | "first b = 0xF1" | "first b = 0x02"
    | "first b = 0x13" | "first b = 0x03" | "first b = 0x23"
    | "first b = 0x34" | "first b = 0x04" | "first b = 0x44"
  using first_cases [of b] by auto

lemma DecodeRune_size:
  assumes "p \<noteq> []"
  shows "1 \<le> snd (DecodeRune p) \<and> snd (DecodeRune p) \<le> length p"
proof -
  from assms have n: "\<not> length p < 1" "Suc 0 \<le> length p" by (cases p; simp)+
  show ?thesis
    using n by (cases "p ! 0" rule: first_consider) (auto simp add: DecodeRune_def Let_def)
qed

lemma ScanRunes_token:
  assumes "data \<noteq> [] \<or> atEOF" and "ScanRunes data atEOF = (adv, Some t)"
  shows "data \<noteq> [] \<and> 1 \<le> adv \<and> adv \<le> length data"
proof -
  from assms have ne: "data \<noteq> []"
    by (auto simp: ScanRunes_def)
  then have "Suc 0 \<le> length data" by (cases data) simp_all
  with assms(2) ne DecodeRune_size [OF ne] show ?thesis
    by (auto simp: ScanRunes_def Let_def split: if_splits)
qed

text \<open>The bytes a scanner still holds or can still read: the measure of the copy loop.\<close>

definition remaining :: "scanner \<Rightarrow> nat" where
  "remaining s = length (s_buf s) + length (concat (r_reads (s_r s)))"

lemma remaining_read_more: "remaining (read_more s loop) = remaining s"
proof (induction s loop rule: read_more.induct)
  case (1 s loop)
  show ?case
  proof (cases "r_reads (s_r s)")
    case Nil
    then show ?thesis
      by (subst read_more.simps) (simp add: Read_def remaining_def setErr_def)
  next
    case (Cons c cs)
    let ?s1 = "s\<lparr>s_r := (s_r s)\<lparr>r_reads := cs\<rparr>, s_buf := s_buf s @ c\<rparr>"
    have s1: "remaining ?s1 = remaining s"
      using Cons by (simp add: remaining_def)
    show ?thesis
    proof (cases "c = [] \<and> \<not> loop + 1 > 100")
      case True
      have "remaining (read_more ?s1 (loop + 1)) = remaining ?s1"
        by (rule "1.IH") (use True Cons in \<open>simp_all add: Read_def\<close>)
      moreover have "read_more s loop = read_more ?s1 (loop + 1)"
        using True Cons by (subst read_more.simps) (simp add: Read_def)
      ultimately show ?thesis using s1 by simp
    next
      case False
      have "read_more s loop = (if c \<noteq> [] then ?s1 else setErr ?s1 ErrNoProgress)"
        using False Cons by (subst read_more.simps) (auto simp add: Read_def Let_def)
      then show ?thesis using Cons by (auto simp: remaining_def setErr_def)
    qed
  qed
qed

lemma Scan_consumes: "Scan s = (Some t, s') \<Longrightarrow> remaining s' < remaining s"
proof (induction s arbitrary: t s' rule: Scan.induct)
  case (1 s)
  obtain adv tok where sp: "(if s_buf s \<noteq> [] \<or> s_err s \<noteq> None
             then ScanRunes (s_buf s) (s_err s \<noteq> None) else (0, None)) = (adv, tok)"
    by (cases "(if s_buf s \<noteq> [] \<or> s_err s \<noteq> None
             then ScanRunes (s_buf s) (s_err s \<noteq> None) else (0, None))")
  let ?s1 = "s\<lparr>s_buf := drop adv (s_buf s)\<rparr>"
  show ?case
  proof (cases tok)
    case (Some u)
    with sp have g: "s_buf s \<noteq> [] \<or> s_err s \<noteq> None"
      and sr: "ScanRunes (s_buf s) (s_err s \<noteq> None) = (adv, Some u)"
      by (auto split: if_splits)
    from ScanRunes_token [OF g sr] have "1 \<le> adv" "adv \<le> length (s_buf s)" by simp_all
    moreover from "1.prems" sp Some have "s' = ?s1"
      by (subst (asm) Scan.simps) simp
    ultimately show ?thesis by (simp add: remaining_def)
  next
    case None
    show ?thesis
    proof (cases "s_err s = None")
      case True
      with "1.prems" sp None have sc: "Scan (read_more ?s1 0) = (Some t, s')"
        by (subst (asm) Scan.simps) simp
      have "remaining s' < remaining (read_more ?s1 0)"
        by (rule "1.IH" [OF sp [symmetric] refl refl _ _ sc]) (use None True in simp_all)
      also have "\<dots> = remaining ?s1" by (rule remaining_read_more)
      also have "\<dots> \<le> remaining s" by (simp add: remaining_def)
      finally show ?thesis .
    next
      case False
      with "1.prems" sp None show ?thesis
        by (subst (asm) Scan.simps) simp
    qed
  qed
qed

section \<open>main.go: the copy loop and main\<close>

text \<open>
  The inner loop of \<^verbatim>\<open>copyRunesWithPatience\<close>, \<^verbatim>\<open>for len(bs) > 0\<close>, over the bytes of
  one token: decode a rune, ask for its delay, write its bytes and return the error of
  a failed write; otherwise flush, sleep, and go on with the rest of the token.
\<close>

function rune_loop ::
  "writer \<Rightarrow> flush_action \<Rightarrow> patience \<Rightarrow> byte list \<Rightarrow> event list \<Rightarrow> error option \<times> event list"
where
  "rune_loop dst flush patience bs tr =
     (if length bs > 0 then
        let (r, size) = DecodeRune bs;
            (delay, prints) = patience r;
            tr = tr @ map EvPrint prints;
            err = w_write dst tr (take size bs);
            tr = tr @ [EvWrite (w_name dst) (take size bs) err]
        in if err \<noteq> None then (err, tr)
           else
             let tr = run_flush flush (w_name dst) tr;
                 tr = tr @ [EvSleep delay]
             in rune_loop dst flush patience (drop size bs) tr
      else (None, tr))"
  by pat_completeness auto
termination
proof (relation "measure (\<lambda>(dst, flush, patience, bs, tr). length bs)", goal_cases)
  case 1
  show ?case by simp
next
  case (2 dst flush patience bs tr x r size)
  then have "bs \<noteq> []" and "snd (DecodeRune bs) = size"
    by (auto simp: snd_def split: prod.splits)
  with DecodeRune_size [of bs] show ?case by simp
qed

text \<open>
  The outer loop, \<^verbatim>\<open>for scanner.Scan()\<close>, which ends with \<^verbatim>\<open>return scanner.Err()\<close>.
\<close>

function scan_loop ::
  "writer \<Rightarrow> flush_action \<Rightarrow> patience \<Rightarrow> scanner \<Rightarrow> event list \<Rightarrow> error option \<times> event list"
where
  "scan_loop dst flush patience s tr =
     (let (tok, s) = Scan s in
      case tok of
        None \<Rightarrow> (Err s, tr)
      | Some bs \<Rightarrow>
          let (err, tr) = rune_loop dst flush patience bs tr in
          if err \<noteq> None then (err, tr)
          else scan_loop dst flush patience s tr)"
  by pat_completeness auto
termination
proof (relation "measure (\<lambda>(dst, flush, patience, s, tr). remaining s)", goal_cases)
  case 1
  show ?case by simp
next
  case (2 dst flush patience s tr x tok s' bs)
  then have "Scan s = (Some bs, s')" by simp
  from Scan_consumes [OF this] show ?case by simp
qed

declare rune_loop.simps [simp del] scan_loop.simps [simp del]

text \<open>
  \<^verbatim>\<open>copyRunesWithPatience(dst, src, patience)\<close>, started after the events \<open>tr\<close>: the
  error it returns and the events after it.
\<close>

definition copyRunesWithPatience ::
  "writer \<Rightarrow> reader \<Rightarrow> patience \<Rightarrow> event list \<Rightarrow> error option \<times> event list"
where
  "copyRunesWithPatience dst src patience tr =
     (let flush = makeFlush dst;
          scanner = NewScanner src
      in scan_loop dst flush patience scanner tr)"

text \<open>
  \<^verbatim>\<open>ioutil.Discard\<close>: every write succeeds, and the type has no \<^verbatim>\<open>Flush\<close> and no
  \<^verbatim>\<open>Sync\<close>. \<^verbatim>\<open>os.Stdout\<close> is an \<^verbatim>\<open>*os.File\<close>: it has \<^verbatim>\<open>Sync() error\<close> and no
  \<^verbatim>\<open>Flush\<close>; what its writes return depends on the world, the parameter \<open>wr\<close>.
\<close>

definition Discard :: writer where
  "Discard = \<lparr>w_name = ''ioutil.Discard'', w_methods = Map.empty, w_write = (\<lambda>tr p. None)\<rparr>"

definition Stdout :: "(event list \<Rightarrow> byte list \<Rightarrow> error option) \<Rightarrow> writer" where
  "Stdout wr = \<lparr>w_name = ''os.Stdout'', w_methods = [''Sync'' \<mapsto> ErrorResult], w_write = wr\<rparr>"

text \<open>The parsed flags \<^verbatim>\<open>-base\<close>, \<^verbatim>\<open>-step\<close>, \<^verbatim>\<open>-bits\<close> and \<^verbatim>\<open>-debug\<close>.\<close>

record flags =
  flag_base :: duration
  flag_step :: duration
  flag_bits :: uint
  flag_debug :: bool

text \<open>
  \<^verbatim>\<open>main\<close> after \<^verbatim>\<open>flag.Parse()\<close>: the exit status of the process and the events of the
  run. A panic ends a Go program with status 2, a return from \<^verbatim>\<open>main\<close> with status 0.
  The error that \<^verbatim>\<open>copyRunesWithPatience\<close> returns is not used.
\<close>

definition main ::
  "flags \<Rightarrow> reader \<Rightarrow> (event list \<Rightarrow> byte list \<Rightarrow> error option) \<Rightarrow> nat \<times> event list"
where
  "main fl stdin out =
     (case bePatient (flag_bits fl) (flag_base fl) (flag_step fl) of
        Inl p \<Rightarrow> (2, [])
      | Inr delay \<Rightarrow>
          let (dst, delay) =
                (if flag_debug fl then (Discard, printImpatiently (Stdout out) delay)
                 else (Stdout out, delay));
              (err, tr) = copyRunesWithPatience dst stdin delay []
          in (0, tr))"

section \<open>Vocabulary of the properties\<close>

text \<open>The runes that are code points: \<open>0\<close> to \<open>MaxRune\<close>.\<close>

definition code_points :: "rune set" where
  "code_points = {c. 0 \<le>s c \<and> c \<le>s MaxRune}"

text \<open>
  The bytes that a scanner receives from the successive reads: all of them, up to the
  point where the reader returns no bytes 101 times in a row and the scanner gives up.
  \<open>read_end\<close> is the error that stops the reading.
\<close>

fun delivered :: "byte list list \<Rightarrow> nat \<Rightarrow> byte list" where
  "delivered [] loop = []"
| "delivered (c # cs) loop =
     (if c \<noteq> [] then c @ delivered cs 0
      else if loop + 1 > 100 then []
      else delivered cs (loop + 1))"

fun read_end :: "byte list list \<Rightarrow> nat \<Rightarrow> error \<Rightarrow> error" where
  "read_end [] loop e = e"
| "read_end (c # cs) loop e =
     (if c \<noteq> [] then read_end cs 0 e
      else if loop + 1 > 100 then ErrNoProgress
      else read_end cs (loop + 1) e)"

definition input_bytes :: "reader \<Rightarrow> byte list" where
  "input_bytes src = delivered (r_reads src) 0"

text \<open>For a scanner in the middle of its work: the bytes still to come, and the error
  that will stop it.\<close>

definition to_come :: "scanner \<Rightarrow> byte list" where
  "to_come s = s_buf s @ (if s_err s = None then delivered (r_reads (s_r s)) 0 else [])"

definition stop_error :: "scanner \<Rightarrow> error" where
  "stop_error s =
     (case s_err s of Some e \<Rightarrow> e | None \<Rightarrow> read_end (r_reads (s_r s)) 0 (r_err (s_r s)))"

text \<open>
  The characters of a byte sequence, one list of bytes each: an ASCII byte or a valid
  multi-byte encoding as it stands, and the encoding of U+FFFD in place of any other
  byte, which counts as one byte of the input.
\<close>

function split_runes :: "byte list \<Rightarrow> byte list list" where
  "split_runes data =
     (if data = [] then []
      else
        let (r, size) = DecodeRune data in
        if size = 1 \<and> \<not> data ! 0 < 0x80 then errorRune # split_runes (drop 1 data)
        else take size data # split_runes (drop size data))"
  by pat_completeness auto
termination
proof (relation "measure length", goal_cases)
  case 1
  show ?case by simp
next
  case (2 data x r size)
  then show ?case by (cases data) simp_all
next
  case (3 data x r size)
  then have "DecodeRune data = (r, size)" by simp
  then have "snd (DecodeRune data) = size" by simp
  with DecodeRune_size [of data] 3 show ?case by simp
qed

declare split_runes.simps [simp del]

text \<open>
  \<open>one_rune t\<close>: the bytes \<open>t\<close> decode as one rune and nothing more. \<open>valid_char t\<close>:
  they are moreover a valid encoding, an ASCII byte or a multi-byte sequence.
\<close>

definition one_rune :: "byte list \<Rightarrow> bool" where
  "one_rune t \<longleftrightarrow> t \<noteq> [] \<and> snd (DecodeRune t) = length t"

definition valid_char :: "byte list \<Rightarrow> bool" where
  "valid_char t \<longleftrightarrow> t \<noteq> [] \<and> snd (DecodeRune t) = length t \<and> (t ! 0 < 0x80 \<or> 1 < length t)"

text \<open>
  The loop of \<^verbatim>\<open>copyRunesWithPatience\<close> over a list of characters that is already
  split: the reference that the two nested loops over the scanner are compared with.
\<close>

fun emit ::
  "writer \<Rightarrow> flush_action \<Rightarrow> patience \<Rightarrow> byte list list \<Rightarrow> event list \<Rightarrow> error option \<times> event list"
where
  "emit dst flush patience [] tr = (None, tr)"
| "emit dst flush patience (t # ts) tr =
     (let (delay, prints) = patience (fst (DecodeRune t));
          tr = tr @ map EvPrint prints;
          err = w_write dst tr t;
          tr = tr @ [EvWrite (w_name dst) t err]
      in if err \<noteq> None then (err, tr)
         else emit dst flush patience ts (run_flush flush (w_name dst) tr @ [EvSleep delay]))"

text \<open>
  The events of one character after the events \<open>tr\<close>: the print calls of the delay
  function, the write, and after a write that succeeded the flush and the sleep;
  \<open>char_error\<close> is what the write returns.
\<close>

definition char_events ::
  "writer \<Rightarrow> flush_action \<Rightarrow> patience \<Rightarrow> byte list \<Rightarrow> event list \<Rightarrow> event list"
where
  "char_events dst flush patience t tr =
     (let (delay, prints) = patience (fst (DecodeRune t));
          err = w_write dst (tr @ map EvPrint prints) t
      in map EvPrint prints @ [EvWrite (w_name dst) t err] @
         (if err \<noteq> None then [] else run_flush flush (w_name dst) [] @ [EvSleep delay]))"

definition char_error ::
  "writer \<Rightarrow> patience \<Rightarrow> byte list \<Rightarrow> event list \<Rightarrow> error option"
where
  "char_error dst patience t tr =
     w_write dst (tr @ map EvPrint (snd (patience (fst (DecodeRune t))))) t"

text \<open>
  Readings of a list of events: the byte slices of its writes, the durations of its
  sleeps, whether an event is a write that failed, whether it is a flush or a sync.
\<close>

fun payloads :: "event list \<Rightarrow> byte list list" where
  "payloads [] = []"
| "payloads (EvWrite nm bs e # evs) = bs # payloads evs"
| "payloads (ev # evs) = payloads evs"

fun sleeps :: "event list \<Rightarrow> duration list" where
  "sleeps [] = []"
| "sleeps (EvSleep d # evs) = d # sleeps evs"
| "sleeps (ev # evs) = sleeps evs"

fun failed_write :: "event \<Rightarrow> bool" where
  "failed_write (EvWrite nm bs (Some e)) = True"
| "failed_write ev = False"

fun is_flush :: "event \<Rightarrow> bool" where
  "is_flush (EvFlush nm) = True"
| "is_flush (EvFlushErr nm) = True"
| "is_flush (EvSync nm) = True"
| "is_flush ev = False"

text \<open>
  What holds of the events \<open>new\<close> of a run over the characters \<open>ts\<close> that returned
  \<open>res\<close>: the writes are the characters, in order, up to where the run stopped; every
  flush is the one bound action; a run without error wrote every character and slept
  after each for the delay of its rune, and no write failed; a run that returned a write
  error ends with the write that failed, the only one.
\<close>

definition run_ok ::
  "writer \<Rightarrow> flush_action \<Rightarrow> patience \<Rightarrow> byte list list \<Rightarrow> error option \<Rightarrow> event list \<Rightarrow> bool"
where
  "run_ok dst flush patience ts res new \<longleftrightarrow>
     (\<exists>rest. ts = payloads new @ rest) \<and>
     (\<forall>ev\<in>set new. is_flush ev \<longrightarrow> [ev] = run_flush flush (w_name dst) []) \<and>
     (case res of
        None \<Rightarrow>
          payloads new = ts \<and>
          sleeps new = map (\<lambda>t. fst (patience (fst (DecodeRune t)))) ts \<and>
          (\<forall>ev\<in>set new. \<not> failed_write ev)
      | Some e \<Rightarrow>
          \<exists>pre bs. new = pre @ [EvWrite (w_name dst) bs (Some e)] \<and>
                   (\<forall>ev\<in>set pre. \<not> failed_write ev))"

section \<open>The delay function\<close>

lemma mask_and: "(push_bit n (1::rune) - 1) AND c = take_bit n c"
  by (simp add: push_bit_eq_mult flip: mask_eq_exp_minus_1 take_bit_eq_mask)
    (simp add: and.commute take_bit_eq_mask)

lemma scast_take:
  "n \<le> 7 \<Longrightarrow> (scast (take_bit n (c::rune)) :: duration) = ucast (take_bit n c)"
  by (rule bit_word_eqI) (auto simp add: bit_simps)

lemma unat_small: "unat (take_bit n (c::rune)) = unat c mod 2 ^ n"
proof -
  have "unat (take_bit n c) = take_bit n (unat c)"
    by (rule unsigned_take_bit_eq)
  then show ?thesis by (simp add: take_bit_eq_mod)
qed

lemma masked_low:
  assumes "n \<le> 7"
  shows "(scast ((push_bit n (1::rune) - 1) AND c) :: duration) = of_nat (unat c mod 2 ^ n)"
proof -
  have "(scast ((push_bit n (1::rune) - 1) AND c) :: duration) = scast (take_bit n c)"
    by (simp only: mask_and)
  also have "\<dots> = ucast (take_bit n c)"
    using assms by (rule scast_take)
  also have "\<dots> = of_nat (unat (take_bit n c))"
    by simp
  finally show ?thesis
    by (simp only: unat_small)
qed

lemma masked_low_pow:
  "n \<le> 7 \<Longrightarrow> (scast ((2 ^ n - 1) AND (c::rune)) :: duration) = of_nat (unat c mod 2 ^ n)"
  using masked_low [of n c] by simp

lemma unat_bits: "(bits::uint) \<le> 7 \<Longrightarrow> unat bits \<le> 7"
  by (simp add: word_le_nat_alt)

lemma bits_cases: "\<not> (8::uint) \<le> bits \<longleftrightarrow> bits \<le> 7"
  by (simp add: word_le_nat_alt not_le) arith

lemma bePatient_ok:
  assumes "bits \<le> 7"
  shows "bePatient bits initial step =
     Inr (\<lambda>b. (initial + step * of_nat (unat b mod 2 ^ unat bits), []))"
proof -
  from assms have n: "unat bits \<le> 7" by (rule unat_bits)
  from assms have "\<not> 8 \<le> bits" by (simp add: bits_cases)
  then show ?thesis
    by (simp add: bePatient_def Let_def masked_low_pow [OF n])
qed

lemma small_rune:
  assumes "k < 128"
  shows "unat (of_nat k :: rune) = k" and "(of_nat k :: rune) \<in> code_points"
proof -
  show u: "unat (of_nat k :: rune) = k"
    using assms by (simp add: unat_of_nat)
  have "sint (of_nat k :: rune) = signed_take_bit 31 (int k)"
    by (simp add: signed_of_nat)
  also have "\<dots> = int k"
    using assms by (simp add: signed_take_bit_int_eq_self_iff)
  finally have "sint (of_nat k :: rune) = int k" .
  then show "(of_nat k :: rune) \<in> code_points"
    using assms by (simp add: code_points_def word_sle_eq MaxRune_def)
qed

lemma low_image:
  assumes "n \<le> 7"
  shows "(\<lambda>c. unat c mod 2 ^ n) ` code_points = {..< 2 ^ n}"
proof
  show "(\<lambda>c. unat c mod 2 ^ n) ` code_points \<subseteq> {..< 2 ^ n}"
    by auto
  show "{..< 2 ^ n} \<subseteq> (\<lambda>c. unat c mod 2 ^ n) ` code_points"
  proof
    fix k :: nat
    assume "k \<in> {..< 2 ^ n}"
    then have k: "k < 2 ^ n" by simp
    also have "(2::nat) ^ n \<le> 2 ^ 7" using assms by (rule power_increasing) simp
    finally have "k < 128" by simp
    from small_rune [OF this] k have "k = unat (of_nat k :: rune) mod 2 ^ n"
      and "(of_nat k :: rune) \<in> code_points" by simp_all
    then show "k \<in> (\<lambda>c. unat c mod 2 ^ n) ` code_points" by (rule image_eqI)
  qed
qed

lemma step_mult_int: "step * of_nat i = (word_of_int (sint step * int i) :: duration)"
proof -
  have "word_of_int (sint step * int i) = (word_of_int (sint step) :: duration) * word_of_int (int i)"
    by (simp only: wi_hom_mult)
  then show ?thesis by simp
qed

lemma word_eq_dvd: "(word_of_int a :: duration) = word_of_int b \<Longrightarrow> 2 ^ 64 dvd a - b"
proof -
  assume "(word_of_int a :: duration) = word_of_int b"
  then have "take_bit 64 a = take_bit 64 b"
    by (simp add: word_of_int_eq_iff)
  then have "a mod 2 ^ 64 = b mod 2 ^ 64"
    by (simp only: take_bit_eq_mod)
  then show ?thesis
    by (simp only: mod_eq_dvd_iff)
qed

lemma small_product_zero:
  fixes s d :: int
  assumes "\<bar>s\<bar> < 2 ^ 57" and "\<bar>d\<bar> < 2 ^ 7" and "2 ^ 64 dvd s * d" and "s \<noteq> 0"
  shows "d = 0"
proof (rule ccontr)
  assume "d \<noteq> 0"
  with assms(4) have nz: "s * d \<noteq> 0" by simp
  have "\<bar>s\<bar> * \<bar>d\<bar> < 2 ^ 57 * 2 ^ 7"
    using assms(1,2) by (rule mult_strict_mono') simp_all
  then have lt: "\<bar>s * d\<bar> < 2 ^ 64" by (simp add: abs_mult)
  from assms(3) nz have "2 ^ 64 \<le> \<bar>s * d\<bar>"
    using dvd_imp_le_int [of "s * d" "2 ^ 64"] by simp
  with lt show False by simp
qed


lemma step_inj:
  assumes "step \<noteq> 0" and "- (2 ^ 57) < sint step" and "sint step < 2 ^ 57"
    and "j < 128" and "k < 128"
    and "step * of_nat j = step * (of_nat k :: duration)"
  shows "j = k"
proof -
  from assms(6) have "(word_of_int (sint step * int j) :: duration) = word_of_int (sint step * int k)"
    by (simp only: step_mult_int)
  then have "2 ^ 64 dvd sint step * int j - sint step * int k"
    by (rule word_eq_dvd)
  then have d: "2 ^ 64 dvd sint step * (int j - int k)"
    by (simp only: right_diff_distrib)
  have a: "\<bar>sint step\<bar> < 2 ^ 57" using assms(2,3) by simp
  have b: "\<bar>int j - int k\<bar> < 2 ^ 7" using assms(4,5) by simp
  from assms(1) have c: "sint step \<noteq> 0" by (simp add: signed_eq_0_iff)
  from a b d c have "int j - int k = 0" by (rule small_product_zero)
  then show ?thesis by simp
qed

section \<open>Decoding is stable under more input\<close>

lemma first_ascii: "first b = 0xF0 \<longleftrightarrow> b < 0x80"
  by (simp add: first_def)

lemma DecodeRune_ascii:
  assumes "p \<noteq> []" and "p ! 0 < 0x80"
  shows "DecodeRune p = (ucast (p ! 0), 1)"
proof -
  from assms(1) have "\<not> length p < 1" by (cases p) simp_all
  moreover from assms(2) have "first (p ! 0) = 0xF0" by (simp add: first_ascii)
  ultimately show ?thesis by (simp add: DecodeRune_def Let_def)
qed

lemma DecodeRune_invalid:
  assumes "p \<noteq> []" and "\<not> p ! 0 < 0x80" and "snd (DecodeRune p) \<le> 1"
  shows "DecodeRune p = (RuneError, 1)"
proof -
  from assms(1) have n: "\<not> length p < 1" by (cases p) simp_all
  from assms(2) have na: "first (p ! 0) \<noteq> 0xF0" by (simp add: first_ascii)
  show ?thesis
    using assms(3) n na 
    by (cases "p ! 0" rule: first_consider) (auto simp add: DecodeRune_def Let_def split: if_splits)
qed

lemma DecodeRune_append_wide:
  assumes "1 < snd (DecodeRune p)"
  shows "DecodeRune (p @ q) = DecodeRune p"
proof -
  from assms have ne: "p \<noteq> []" by (auto simp: DecodeRune_def)
  then have n: "\<not> length p < 1" "(p @ q) ! 0 = p ! 0" by (cases p; simp)+
  show ?thesis
    using assms n
    by (cases "p ! 0" rule: first_consider)
      (auto simp add: DecodeRune_def Let_def nth_append split: if_splits)
qed

lemma DecodeRune_append_full:
  assumes "FullRune p"
  shows "DecodeRune (p @ q) = DecodeRune p"
proof -
  from assms have ne: "p \<noteq> []" by (auto simp: FullRune_def)
  then have n: "\<not> length p < 1" "(p @ q) ! 0 = p ! 0" "length p \<noteq> 0" by (cases p; simp)+
  show ?thesis
    using assms n
    by (cases "p ! 0" rule: first_consider)
      (auto simp add: DecodeRune_def FullRune_def Let_def nth_append split: if_splits)
qed

lemma DecodeRune_take:
  assumes "snd (DecodeRune p) \<le> k"
  shows "DecodeRune (take k p) = DecodeRune p"
proof (cases "p = [] \<or> length p \<le> k")
  case True
  then show ?thesis by auto
next
  case False
  then have ne: "p \<noteq> []" and k: "k < length p" by simp_all
  from DecodeRune_size [OF ne] assms have k1: "1 \<le> k" by simp
  with ne have h: "take k p ! 0 = p ! 0" "\<not> length p < 1" "min (length p) k = k" "\<not> k < 1"
    using k by (cases p; simp)+
  show ?thesis
    using assms k h
    by (cases "p ! 0" rule: first_consider)
      (auto simp add: DecodeRune_def Let_def split: if_splits)
qed

lemma errorRune_bytes: "errorRune = [0xEF, 0xBF, 0xBD]"
  by (simp add: errorRune_def string_of_rune_def RuneError_def Let_def)

lemma DecodeRune_errorRune: "DecodeRune errorRune = (RuneError, 3)"
  by (simp add: errorRune_bytes DecodeRune_def first_def acceptRanges_def Let_def RuneError_def)

lemma one_rune_errorRune: "one_rune errorRune"
  by (simp add: one_rune_def DecodeRune_errorRune) (simp add: errorRune_bytes)

lemma one_rune_take:
  assumes "p \<noteq> []"
  shows "one_rune (take (snd (DecodeRune p)) p)"
proof -
  from DecodeRune_size [OF assms] have "1 \<le> snd (DecodeRune p)" "snd (DecodeRune p) \<le> length p"
    by simp_all
  moreover have "DecodeRune (take (snd (DecodeRune p)) p) = DecodeRune p"
    by (rule DecodeRune_take) simp
  ultimately show ?thesis using assms
    by (auto simp: one_rune_def)
qed

section \<open>The scanner yields the characters of its input\<close>

lemma ScanRunes_eof:
  assumes "data \<noteq> []"
  shows "ScanRunes data True =
     (if snd (DecodeRune data) = 1 \<and> \<not> data ! 0 < 0x80 then (1, Some errorRune)
      else (snd (DecodeRune data), Some (take (snd (DecodeRune data)) data)))"
  using assms DecodeRune_size [OF assms] DecodeRune_ascii [OF assms]
  by (auto simp: ScanRunes_def Let_def)

lemma split_runes_step:
  assumes "data \<noteq> []" and "ScanRunes data True = (adv, Some t)"
  shows "split_runes data = t # split_runes (drop adv data)"
  using assms by (subst split_runes.simps) (auto simp: ScanRunes_eof split: prod.splits if_splits)

lemma ScanRunes_stable:
  assumes "data \<noteq> []" and "ScanRunes data atEOF = (adv, Some t)"
    and "atEOF \<Longrightarrow> rest = []"
  shows "ScanRunes (data @ rest) True = (adv, Some t)"
proof (cases atEOF)
  case True
  with assms show ?thesis by simp
next
  case neof: False
  from assms(1) have h: "(data @ rest) ! 0 = data ! 0" "data @ rest \<noteq> []" "length data \<noteq> 0"
    by (cases data; simp)+
  show ?thesis
  proof (cases "data ! 0 < 0x80")
    case True
    with assms h show ?thesis
      by (cases data) (auto simp: ScanRunes_def)
  next
    case False
    note na = this
    show ?thesis
    proof (cases "1 < snd (DecodeRune data)")
      case True
      from DecodeRune_size [OF assms(1)] have "snd (DecodeRune data) \<le> length data" by simp
      with True assms na h DecodeRune_append_wide [OF True, of rest] show ?thesis
        by (auto simp: ScanRunes_def Let_def)
    next
      case False
      with DecodeRune_size [OF assms(1)] have w: "snd (DecodeRune data) = 1" by simp
      with neof na h assms have "FullRune data"
        by (auto simp: ScanRunes_def Let_def split: if_splits)
      from DecodeRune_append_full [OF this, of rest] w na h assms neof show ?thesis
        by (auto simp: ScanRunes_def Let_def split: if_splits)
    qed
  qed
qed

lemma ScanRunes_one_rune:
  assumes "data \<noteq> []" and "ScanRunes data True = (adv, Some t)"
  shows "one_rune t"
  using assms one_rune_take [OF assms(1)] one_rune_errorRune
  by (auto simp: ScanRunes_eof split: if_splits)

lemma split_runes_one_rune: "t \<in> set (split_runes data) \<Longrightarrow> one_rune t"
proof (induction data arbitrary: t rule: length_induct)
  case (1 data)
  show ?case
  proof (cases "data = []")
    case True
    with "1.prems" show ?thesis by (simp add: split_runes.simps)
  next
    case False
    from DecodeRune_size [OF False] have sz: "1 \<le> snd (DecodeRune data)" by simp
    have "\<exists>adv u. ScanRunes data True = (adv, Some u)"
      using False by (simp add: ScanRunes_eof)
    then obtain adv u where sr: "ScanRunes data True = (adv, Some u)"
      by blast
    with ScanRunes_token [of data True adv u] False have adv: "1 \<le> adv" by simp
    from split_runes_step [OF False sr] "1.prems"
    have "t = u \<or> t \<in> set (split_runes (drop adv data))" by auto
    then show ?thesis
    proof
      assume "t = u"
      with ScanRunes_one_rune [OF False sr] show ?thesis by simp
    next
      assume t: "t \<in> set (split_runes (drop adv data))"
      have "length (drop adv data) < length data" using adv False by simp
      with "1.IH" t show ?thesis by blast
    qed
  qed
qed

lemma read_more_view:
  "s_err s = None \<Longrightarrow>
     to_come (read_more s loop) = s_buf s @ delivered (r_reads (s_r s)) loop \<and>
     stop_error (read_more s loop) = read_end (r_reads (s_r s)) loop (r_err (s_r s))"
proof (induction s loop rule: read_more.induct)
  case (1 s loop)
  show ?case
  proof (cases "r_reads (s_r s)")
    case Nil
    with "1.prems" show ?thesis
      by (subst (1 2) read_more.simps) (simp add: Read_def to_come_def stop_error_def setErr_def)
  next
    case (Cons c cs)
    let ?s1 = "s\<lparr>s_r := (s_r s)\<lparr>r_reads := cs\<rparr>, s_buf := s_buf s @ c\<rparr>"
    show ?thesis
    proof (cases "c = [] \<and> \<not> loop + 1 > 100")
      case True
      have "to_come (read_more ?s1 (loop + 1)) = s_buf ?s1 @ delivered (r_reads (s_r ?s1)) (loop + 1) \<and>
            stop_error (read_more ?s1 (loop + 1)) = read_end (r_reads (s_r ?s1)) (loop + 1) (r_err (s_r ?s1))"
        by (rule "1.IH") (use True Cons "1.prems" in \<open>simp_all add: Read_def\<close>)
      moreover have "read_more s loop = read_more ?s1 (loop + 1)"
        using True Cons by (subst read_more.simps) (simp add: Read_def)
      ultimately show ?thesis using True Cons by simp
    next
      case False
      have "read_more s loop = (if c \<noteq> [] then ?s1 else setErr ?s1 ErrNoProgress)"
        using False Cons by (subst read_more.simps) (auto simp add: Read_def Let_def)
      then show ?thesis using Cons "1.prems" False
        by (auto simp: to_come_def stop_error_def setErr_def)
    qed
  qed
qed

lemma ScanRunes_None: "ScanRunes data atEOF = (adv, None) \<Longrightarrow> adv = 0 \<and> (atEOF \<longrightarrow> data = [])"
  by (auto simp: ScanRunes_def Let_def split: if_splits)

lemma Scan_view:
  "case Scan s of
     (Some t, s') \<Rightarrow>
       to_come s \<noteq> [] \<and> stop_error s' = stop_error s \<and>
       (\<exists>adv. ScanRunes (to_come s) True = (adv, Some t) \<and> to_come s' = drop adv (to_come s))
   | (None, s') \<Rightarrow> to_come s = [] \<and> s_err s' = Some (stop_error s)"
proof (induction s rule: Scan.induct)
  case (1 s)
  obtain adv tok where sp: "(if s_buf s \<noteq> [] \<or> s_err s \<noteq> None
             then ScanRunes (s_buf s) (s_err s \<noteq> None) else (0, None)) = (adv, tok)"
    by (cases "(if s_buf s \<noteq> [] \<or> s_err s \<noteq> None
             then ScanRunes (s_buf s) (s_err s \<noteq> None) else (0, None))") 
  let ?s1 = "s\<lparr>s_buf := drop adv (s_buf s)\<rparr>"
  let ?rest = "if s_err s = None then delivered (r_reads (s_r s)) 0 else []"
  show ?case
  proof (cases tok)
    case (Some u)
    with sp have g: "s_buf s \<noteq> [] \<or> s_err s \<noteq> None"
      and sr: "ScanRunes (s_buf s) (s_err s \<noteq> None) = (adv, Some u)"
      by (auto split: if_splits)
    from ScanRunes_token [OF g sr] have b: "s_buf s \<noteq> []" "adv \<le> length (s_buf s)" by simp_all
    have "ScanRunes (s_buf s @ ?rest) True = (adv, Some u)"
      by (rule ScanRunes_stable [OF b(1) sr]) auto
    moreover have "Scan s = (Some u, ?s1)"
      using sp Some by (subst Scan.simps) simp
    ultimately show ?thesis using b
      by (auto simp add: to_come_def stop_error_def split: option.splits)
  next
    case None
    with sp have adv: "adv = 0"
      by (auto dest: ScanRunes_None split: if_splits)
    show ?thesis
    proof (cases "s_err s = None")
      case True
      have eq: "Scan s = Scan (read_more ?s1 0)"
        using sp None True by (subst Scan.simps) simp
      have ih: "case Scan (read_more ?s1 0) of
          (Some t, s') \<Rightarrow>
            to_come (read_more ?s1 0) \<noteq> [] \<and> stop_error s' = stop_error (read_more ?s1 0) \<and>
            (\<exists>adv. ScanRunes (to_come (read_more ?s1 0)) True = (adv, Some t) \<and>
                   to_come s' = drop adv (to_come (read_more ?s1 0)))
        | (None, s') \<Rightarrow> to_come (read_more ?s1 0) = [] \<and> s_err s' = Some (stop_error (read_more ?s1 0))"
        by (rule "1.IH" [OF sp [symmetric] refl refl]) (use None True in simp_all)
      have "to_come (read_more ?s1 0) = to_come s" "stop_error (read_more ?s1 0) = stop_error s"
        using read_more_view [of ?s1 0] True adv by (simp_all add: to_come_def stop_error_def)
      with ih eq show ?thesis by (simp split: prod.splits option.splits)
    next
      case False
      with sp None have "s_buf s = []"
        by (auto dest: ScanRunes_None split: if_splits)
      moreover have "Scan s = (None, ?s1\<lparr>s_buf := []\<rparr>)"
        using sp None False by (subst Scan.simps) simp
      ultimately show ?thesis using False
        by (auto simp add: to_come_def stop_error_def)
    qed
  qed
qed

lemma split_runes_valid:
  assumes "valid_char t"
  shows "split_runes (t @ rest) = t # split_runes rest"
proof -
  from assms have ne: "t \<noteq> []" and w: "snd (DecodeRune t) = length t"
    and c: "t ! 0 < 0x80 \<or> 1 < length t"
    by (simp_all add: valid_char_def)
  from ne have h: "(t @ rest) ! 0 = t ! 0" "t @ rest \<noteq> []" by (cases t; simp)+
  have d: "DecodeRune (t @ rest) = DecodeRune t"
  proof (cases "1 < length t")
    case True
    with w show ?thesis by (simp add: DecodeRune_append_wide)
  next
    case False
    with c have "t ! 0 < 0x80" by simp
    with h ne show ?thesis by (simp add: DecodeRune_ascii)
  qed
  obtain r where r: "DecodeRune t = (r, length t)"
    using w by (cases "DecodeRune t") simp
  show ?thesis
    using h c by (subst split_runes.simps) (auto simp add: d r)
qed

lemma split_runes_concat:
  "\<forall>t\<in>set cs. valid_char t \<Longrightarrow> split_runes (concat cs @ rest) = cs @ split_runes rest"
  by (induction cs) (simp_all add: split_runes_valid)

lemma split_runes_invalid:
  assumes "data \<noteq> []" and "snd (DecodeRune data) = 1" and "\<not> data ! 0 < 0x80"
  shows "split_runes data = [0xEF, 0xBF, 0xBD] # split_runes (drop 1 data)"
  using assms by (subst split_runes.simps) (auto simp add: errorRune_bytes split: prod.splits)

section \<open>The copy loop against its reference\<close>

lemma rune_loop_one:
  assumes "one_rune t"
  shows "rune_loop dst flush patience t tr =
     (case emit dst flush patience [t] tr of (err, tr') \<Rightarrow> (err, tr'))"
proof -
  from assms have "t \<noteq> []" and "snd (DecodeRune t) = length t" by (simp_all add: one_rune_def)
  then have d: "DecodeRune t = (fst (DecodeRune t), length t)" "0 < length t"
    by (simp_all add: prod_eq_iff)
  have e: "rune_loop dst flush patience [] tr' = (None, tr')" for tr'
    by (subst rune_loop.simps) simp
  show ?thesis
    using d(2) by (subst rune_loop.simps, subst d(1)) (simp add: Let_def e split: prod.splits)
qed

lemma emit_Cons:
  "emit dst flush patience (t # ts) tr =
     (case emit dst flush patience [t] tr of
        (Some e, tr') \<Rightarrow> (Some e, tr')
      | (None, tr') \<Rightarrow> emit dst flush patience ts tr')"
  by (auto simp add: Let_def split: prod.splits)

lemma scan_loop_emit:
  "scan_loop dst flush patience s tr =
     (case emit dst flush patience (split_runes (to_come s)) tr of
        (Some e, tr') \<Rightarrow> (Some e, tr')
      | (None, tr') \<Rightarrow> (if stop_error s = EOF then None else Some (stop_error s), tr'))"
proof (induction "length (to_come s)" arbitrary: s tr rule: less_induct)
  case less
  obtain tok s' where sc: "Scan s = (tok, s')" by (cases "Scan s")
  show ?case
  proof (cases tok)
    case None
    with sc Scan_view [of s] have v: "to_come s = []" "s_err s' = Some (stop_error s)"
      by simp_all
    have "scan_loop dst flush patience s tr = (Err s', tr)"
      using sc None by (subst scan_loop.simps) simp
    with v show ?thesis
      by (simp add: split_runes.simps Err_def)
  next
    case (Some t)
    with sc Scan_view [of s] obtain adv where
      v: "to_come s \<noteq> []" "stop_error s' = stop_error s"
        "ScanRunes (to_come s) True = (adv, Some t)" "to_come s' = drop adv (to_come s)"
      by auto
    from ScanRunes_token [of "to_come s" True adv t] v have "1 \<le> adv" by simp
    with v have shorter: "length (to_come s') < length (to_come s)" by simp
    have sp: "split_runes (to_come s) = t # split_runes (to_come s')"
      using split_runes_step [OF v(1) v(3)] v(4) by simp
    have one: "one_rune t"
      by (rule ScanRunes_one_rune [OF v(1) v(3)])
    obtain err tr1 where em: "emit dst flush patience [t] tr = (err, tr1)"
      by (cases "emit dst flush patience [t] tr")
    have step: "scan_loop dst flush patience s tr =
        (if err \<noteq> None then (err, tr1) else scan_loop dst flush patience s' tr1)"
      using sc Some em by (subst scan_loop.simps) (simp add: rune_loop_one [OF one])
    have ec: "emit dst flush patience (split_runes (to_come s)) tr =
        (case err of Some e \<Rightarrow> (Some e, tr1)
         | None \<Rightarrow> emit dst flush patience (split_runes (to_come s')) tr1)"
      unfolding sp emit_Cons [of dst flush patience t "split_runes (to_come s')" tr] em
      by simp
    show ?thesis
    proof (cases err)
      case None
      with step less [OF shorter, of tr1, unfolded v(2)] show ?thesis
        by (simp add: ec)
    next
      case (Some e)
      with step show ?thesis
        by (simp add: ec)
    qed
  qed
qed

lemma payloads_append [simp]: "payloads (xs @ ys) = payloads xs @ payloads ys"
  by (induction xs rule: payloads.induct) simp_all

lemma sleeps_append [simp]: "sleeps (xs @ ys) = sleeps xs @ sleeps ys"
  by (induction xs rule: sleeps.induct) simp_all

lemma payloads_prints [simp]: "payloads (map EvPrint ps) = []"
  by (induction ps) simp_all

lemma sleeps_prints [simp]: "sleeps (map EvPrint ps) = []"
  by (induction ps) simp_all

lemma run_flush_append: "run_flush act nm tr = tr @ run_flush act nm []"
  by (cases act) (simp_all add: run_flush_def)

lemma payloads_flush [simp]: "payloads (run_flush act nm []) = []"
  by (cases act) (simp_all add: run_flush_def)

lemma sleeps_flush [simp]: "sleeps (run_flush act nm []) = []"
  by (cases act) (simp_all add: run_flush_def)

lemma failed_flush [simp]: "ev \<in> set (run_flush act nm []) \<Longrightarrow> \<not> failed_write ev"
  by (cases act) (auto simp add: run_flush_def)

lemma emit_step:
  "emit dst flush patience (t # ts) tr =
     (if char_error dst patience t tr \<noteq> None
      then (char_error dst patience t tr, tr @ char_events dst flush patience t tr)
      else emit dst flush patience ts (tr @ char_events dst flush patience t tr))"
  by (simp add: char_events_def char_error_def Let_def split_beta
      run_flush_append [of _ _ "_ @ _"])

lemma char_events_view:
  "payloads (char_events dst flush patience t tr) = [t]"
  "char_error dst patience t tr = None \<Longrightarrow>
     sleeps (char_events dst flush patience t tr) = [fst (patience (fst (DecodeRune t)))]"
  "char_error dst patience t tr = None \<Longrightarrow>
     \<forall>ev\<in>set (char_events dst flush patience t tr). \<not> failed_write ev"
  "char_error dst patience t tr = Some e \<Longrightarrow>
     \<exists>pre. char_events dst flush patience t tr = pre @ [EvWrite (w_name dst) t (Some e)] \<and>
           (\<forall>ev\<in>set pre. \<not> failed_write ev)"
  "\<forall>ev\<in>set (char_events dst flush patience t tr).
     is_flush ev \<longrightarrow> [ev] = run_flush flush (w_name dst) []"
  by (auto simp add: char_events_def char_error_def Let_def run_flush_def split_beta
      split: flush_action.splits)

lemma emit_run_ok:
  "\<exists>new. snd (emit dst flush patience ts tr) = tr @ new \<and>
         run_ok dst flush patience ts (fst (emit dst flush patience ts tr)) new"
proof (induction ts arbitrary: tr)
  case Nil
  show ?case by (simp add: run_ok_def)
next
  case (Cons t ts)
  let ?ce = "char_events dst flush patience t tr"
  show ?case
  proof (cases "char_error dst patience t tr")
    case None
    from Cons.IH [of "tr @ ?ce"] obtain new where
      n: "snd (emit dst flush patience ts (tr @ ?ce)) = (tr @ ?ce) @ new"
        "run_ok dst flush patience ts (fst (emit dst flush patience ts (tr @ ?ce))) new"
      by blast
    have e: "emit dst flush patience (t # ts) tr = emit dst flush patience ts (tr @ ?ce)"
      using None by (simp only: emit_step) simp
    have "run_ok dst flush patience (t # ts) (fst (emit dst flush patience ts (tr @ ?ce))) (?ce @ new)"
      using n(2) char_events_view(1,5) [of dst flush patience t tr]
        char_events_view(2,3) [OF None, of flush]
      unfolding run_ok_def
      by (auto split: option.splits simp del: emit.simps)
    with n(1) e show ?thesis by (simp del: emit.simps)
  next
    case (Some e)
    have e: "emit dst flush patience (t # ts) tr = (Some e, tr @ ?ce)"
      using Some by (simp only: emit_step) simp
    have "run_ok dst flush patience (t # ts) (Some e) ?ce"
      using char_events_view(1,5) [of dst flush patience t tr]
        char_events_view(4) [OF Some, of flush]
      unfolding run_ok_def by (auto simp del: emit.simps)
    with e show ?thesis by (simp del: emit.simps)
  qed
qed

lemma copy_emit:
  "copyRunesWithPatience dst src patience tr =
     (case emit dst (makeFlush dst) patience (split_runes (input_bytes src)) tr of
        (Some e, tr') \<Rightarrow> (Some e, tr')
      | (None, tr') \<Rightarrow>
          (if read_end (r_reads src) 0 (r_err src) = EOF then None
           else Some (read_end (r_reads src) 0 (r_err src)), tr'))"
proof -
  have v: "to_come (NewScanner src) = input_bytes src"
    "stop_error (NewScanner src) = read_end (r_reads src) 0 (r_err src)"
    by (simp_all add: to_come_def stop_error_def NewScanner_def input_bytes_def)
  show ?thesis
    unfolding copyRunesWithPatience_def Let_def scan_loop_emit v by (rule refl)
qed

lemma copy_run_ok:
  assumes "copyRunesWithPatience dst src patience tr0 = (res, tr)"
  shows "\<exists>new. tr = tr0 @ new \<and>
      (run_ok dst (makeFlush dst) patience (split_runes (input_bytes src)) res new \<or>
       run_ok dst (makeFlush dst) patience (split_runes (input_bytes src)) None new)"
proof -
  let ?em = "emit dst (makeFlush dst) patience (split_runes (input_bytes src)) tr0"
  from emit_run_ok [of dst "makeFlush dst" patience "split_runes (input_bytes src)" tr0]
  obtain new where n: "snd ?em = tr0 @ new"
    "run_ok dst (makeFlush dst) patience (split_runes (input_bytes src)) (fst ?em) new"
    by blast
  from assms have "(res, tr) = (case ?em of
        (Some e, tr') \<Rightarrow> (Some e, tr')
      | (None, tr') \<Rightarrow>
          (if read_end (r_reads src) 0 (r_err src) = EOF then None
           else Some (read_end (r_reads src) 0 (r_err src)), tr'))"
    by (simp only: copy_emit)
  then have "tr = snd ?em \<and> (res = fst ?em \<or> fst ?em = None)"
    by (cases ?em) (auto split: option.splits if_splits)
  with n show ?thesis by auto
qed


lemma copy_run_result:
  assumes "copyRunesWithPatience dst src patience tr0 = (res, tr0 @ new)"
    and "\<forall>ev\<in>set new. \<not> failed_write ev"
  shows "run_ok dst (makeFlush dst) patience (split_runes (input_bytes src)) None new \<and>
         res = (if read_end (r_reads src) 0 (r_err src) = EOF then None
                else Some (read_end (r_reads src) 0 (r_err src)))"
proof -
  let ?ts = "split_runes (input_bytes src)"
  let ?em = "emit dst (makeFlush dst) patience ?ts tr0"
  from emit_run_ok [of dst "makeFlush dst" patience ?ts tr0]
  obtain new' where n: "snd ?em = tr0 @ new'"
    "run_ok dst (makeFlush dst) patience ?ts (fst ?em) new'"
    by blast
  from assms(1) have c: "(res, tr0 @ new) = (case ?em of
        (Some e, tr') \<Rightarrow> (Some e, tr')
      | (None, tr') \<Rightarrow>
          (if read_end (r_reads src) 0 (r_err src) = EOF then None
           else Some (read_end (r_reads src) 0 (r_err src)), tr'))"
    by (simp only: copy_emit)
  then have "tr0 @ new = snd ?em"
    by (cases ?em) (auto split: option.splits if_splits)
  with n(1) have eq: "new' = new" by simp
  have none: "fst ?em = None"
  proof (cases "fst ?em")
    case None
    then show ?thesis .
  next
    case (Some e)
    with n(2) eq assms(2) show ?thesis by (auto simp: run_ok_def)
  qed
  with c have "res = (if read_end (r_reads src) 0 (r_err src) = EOF then None
                else Some (read_end (r_reads src) 0 (r_err src)))"
    by (cases ?em) (auto split: option.splits if_splits)
  with n(2) eq none show ?thesis by simp
qed

lemma read_end_nonempty:
  "\<forall>c\<in>set cs. c \<noteq> [] \<Longrightarrow> read_end cs loop e = e \<and> delivered cs loop = concat cs"
  by (induction cs arbitrary: loop) simp_all

section \<open>Properties of the delay function and its wrapper\<close>

text \<open>
  Claim C1. For a bit width in \<open>[0,7]\<close>, \<^verbatim>\<open>bePatient\<close> returns a delay function, and for
  every rune \<open>c\<close> that function returns \<open>initial + step * (mask AND c)\<close> with
  \<open>mask = (1 << bits) - 1\<close>, in the wrapping arithmetic of \<^verbatim>\<open>time.Duration\<close>, and
  prints nothing. The mask reads the whole 32-bit value of the rune: the masked value
  is the value of \<open>c\<close> modulo \<open>2 ^ bits\<close> (for a code point, \<open>unat c\<close> is the code
  point), so a code point above 255 is treated like any other.
\<close>

theorem bePatient_delay:
  assumes "bits \<le> 7"
  shows "\<exists>f. bePatient bits initial step = Inr f \<and>
           (\<forall>c. f c = (initial + step * scast ((push_bit (unat bits) 1 - 1) AND c), []) \<and>
                fst (f c) = initial + step * of_nat (unat c mod 2 ^ unat bits))"
proof -
  from assms have n: "unat bits \<le> 7" by (rule unat_bits)
  from assms have "\<not> 8 \<le> bits" by (simp add: bits_cases)
  then show ?thesis
    by (simp add: bePatient_def Let_def masked_low_pow [OF n])
qed

text \<open>
  With the default flags (three bits, one second, 100 milliseconds) the euro sign
  U+20AC, whose low three bits are 4, waits 1.4 seconds.
\<close>

theorem bePatient_delay_witness:
  "\<exists>f. bePatient 3 1000000000 100000000 = Inr f \<and> f 0x20AC = (1400000000, [])"
proof -
  have h: "(3::uint) \<le> 7" by simp
  from bePatient_delay [OF h, of 1000000000 100000000]
  obtain f where f: "bePatient 3 1000000000 100000000 = Inr f"
    and v: "\<And>c. f c =
      (1000000000 + 100000000 * scast ((push_bit (unat (3::uint)) 1 - 1) AND c), [])"
    by blast
  have "f 0x20AC = (1400000000, [])"
    by (simp add: v)
  with f show ?thesis by blast
qed

text \<open>
  Claim C6. For every delay function \<open>f\<close> and every rune \<open>c\<close>, the wrapped function
  returns the delay \<open>f c\<close> returns; the only difference is one more print call after
  those of \<open>f\<close>: the \<^verbatim>\<open>Fprintf\<close> of the rune as a string, the rune, and that delay.
\<close>

theorem printImpatiently_same_delay:
  "fst (printImpatiently dst f c) = fst (f c) \<and>
   snd (printImpatiently dst f c) =
     snd (f c) @ [Fprintf (w_name dst) (''%q %U %s'' @ [CHR 0x0A])
                    [ArgString (string_of_rune c), ArgRune c, ArgDuration (fst (f c))]]"
  by (simp add: printImpatiently_def split: prod.split)

text \<open>
  Claim C5. For every bit width of 8 or more, \<^verbatim>\<open>bePatient\<close> panics instead of
  returning a delay function, and the run of \<^verbatim>\<open>main\<close> ends there with the exit status of
  a panic and without any event: nothing was read, written, printed or slept.
\<close>

theorem too_many_bits_panics:
  assumes "8 \<le> flag_bits fl"
  shows "bePatient (flag_bits fl) (flag_base fl) (flag_step fl) = Inl TooManyBits \<and>
         main fl stdin out = (2, [])"
  using assms by (simp add: main_def bePatient_def)

theorem too_many_bits_panics_witness:
  "main \<lparr>flag_base = 1000000000, flag_step = 100000000, flag_bits = 8, flag_debug = False\<rparr>
     \<lparr>r_reads = [[0x41]], r_err = EOF\<rparr> (\<lambda>tr p. None) = (2, [])"
  using too_many_bits_panics
    [of "\<lparr>flag_base = 1000000000, flag_step = 100000000, flag_bits = 8, flag_debug = False\<rparr>"]
  by simp

text \<open>
  Claim C7, amended. For a bit width in \<open>[0,7]\<close>, the delays over all code points are
  exactly the values \<open>initial + step * k\<close> for \<open>k\<close> in \<open>[0, 2 ^ bits - 1]\<close>, in the
  wrapping arithmetic of \<^verbatim>\<open>time.Duration\<close>; so there are at most \<open>2 ^ bits\<close> of them, and
  there are exactly \<open>2 ^ bits\<close> when the step is not zero and below \<open>2 ^ 57\<close> nanoseconds
  in absolute value.
\<close>

theorem delay_values:
  assumes "bits \<le> 7" and "bePatient bits initial step = Inr f"
  shows "(\<lambda>c. fst (f c)) ` code_points = (\<lambda>k. initial + step * of_nat k) ` {..< 2 ^ unat bits} \<and>
         card ((\<lambda>c. fst (f c)) ` code_points) \<le> 2 ^ unat bits \<and>
         (step \<noteq> 0 \<and> - (2 ^ 57) < sint step \<and> sint step < 2 ^ 57 \<longrightarrow>
            card ((\<lambda>c. fst (f c)) ` code_points) = 2 ^ unat bits)"
proof -
  let ?n = "unat bits"
  let ?g = "\<lambda>k. initial + step * of_nat k"
  from assms(1) have n: "?n \<le> 7" by (rule unat_bits)
  from assms have f: "f = (\<lambda>b. (initial + step * of_nat (unat b mod 2 ^ ?n), []))"
    by (simp add: bePatient_ok)
  have "(\<lambda>c. fst (f c)) ` code_points = ?g ` ((\<lambda>c. unat c mod 2 ^ ?n) ` code_points)"
    by (simp add: f image_image)
  then have img: "(\<lambda>c. fst (f c)) ` code_points = ?g ` {..< 2 ^ ?n}"
    by (simp only: low_image [OF n])
  have le: "card (?g ` {..< 2 ^ ?n}) \<le> 2 ^ ?n"
    using card_image_le [of "{..< 2 ^ ?n}" ?g] by simp
  have eq: "card (?g ` {..< 2 ^ ?n}) = 2 ^ ?n"
    if s: "step \<noteq> 0 \<and> - (2 ^ 57) < sint step \<and> sint step < 2 ^ 57"
  proof -
    have "(2::nat) ^ ?n \<le> 2 ^ 7" using n by (rule power_increasing) simp
    then have b: "k < 128" if "k < 2 ^ ?n" for k :: nat using that by simp
    have "inj_on ?g {..< 2 ^ ?n}"
    proof (rule inj_onI)
      fix j k assume "j \<in> {..< 2 ^ ?n}" "k \<in> {..< 2 ^ ?n}" "?g j = ?g k"
      then have "j < 128" "k < 128" "step * of_nat j = step * of_nat k"
        using b by simp_all
      with s show "j = k" using step_inj [of step j k] by blast
    qed
    then show ?thesis by (simp add: card_image)
  qed
  from img le eq show ?thesis by simp
qed

theorem delay_values_witness:
  "card ((\<lambda>c. fst (projr (bePatient 3 1000000000 100000000) c)) ` code_points) = 8"
proof -
  have b: "(3::uint) \<le> 7" by simp
  have f: "bePatient 3 1000000000 100000000 = Inr (projr (bePatient 3 1000000000 100000000))"
    by (simp add: bePatient_def)
  have s: "(100000000::duration) \<noteq> 0 \<and> - (2 ^ 57) < sint (100000000::duration) \<and>
           sint (100000000::duration) < 2 ^ 57"
    by simp
  from delay_values [OF b f, THEN conjunct2, THEN conjunct2] s show ?thesis by simp
qed

text \<open>
  With a step of zero (and three bits) every code point has the same delay: one value,
  not eight.
\<close>

theorem delay_values_counterexample:
  "card ((\<lambda>c. fst (projr (bePatient 3 0 0) c)) ` code_points) = 1 \<and> (2::nat) ^ unat (3::uint) = 8"
proof -
  have "(0::rune) \<in> code_points"
    by (simp add: code_points_def word_sle_eq MaxRune_def)
  then have "(\<lambda>c. fst (projr (bePatient 3 0 0) c)) ` code_points = {0}"
    by (auto simp add: bePatient_def)
  then show ?thesis by simp
qed

section \<open>Properties of flush detection\<close>



section \<open>Properties of the copy\<close>





text \<open>
  Claim C10, amended. In a run of the copy in which no write failed, the writes are the
  characters of the input in order (\<open>split_runes\<close>): a valid character is written
  unchanged, and a byte that starts no valid encoding is replaced by the three bytes
  \<open>EF BF BD\<close>, the encoding of U+FFFD, the scanner advancing by that one byte. The sleep
  after each write is the delay of the rune that the written bytes decode to, which is
  U+FFFD for a replaced byte, not the value of the raw byte.
\<close>

theorem copy_replaces_invalid_bytes:
  assumes "copyRunesWithPatience dst src patience tr0 = (res, tr)"
  shows "\<exists>new. tr = tr0 @ new \<and>
           ((\<forall>ev\<in>set new. \<not> failed_write ev) \<longrightarrow>
              payloads new = split_runes (input_bytes src) \<and>
              sleeps new =
                map (\<lambda>t. fst (patience (fst (DecodeRune t)))) (split_runes (input_bytes src)))"
proof -
  let ?ts = "split_runes (input_bytes src)"
  from copy_run_ok [OF assms(1)] obtain new where
    n: "tr = tr0 @ new"
    "run_ok dst (makeFlush dst) patience ?ts res new \<or>
     run_ok dst (makeFlush dst) patience ?ts None new"
    by blast
  have "run_ok dst (makeFlush dst) patience ?ts None new" if "\<forall>ev\<in>set new. \<not> failed_write ev"
    using n(2) that by (cases res) (auto simp: run_ok_def)
  with n(1) show ?thesis by (auto simp: run_ok_def)
qed

text \<open>The input \<open>41 FF 42\<close> with the default flags.\<close>

theorem copy_replaces_invalid_bytes_witness:
  "payloads (snd (copyRunesWithPatience (Stdout (\<lambda>tr p. None))
     \<lparr>r_reads = [[0x41, 0xFF, 0x42]], r_err = EOF\<rparr>
     (projr (bePatient 3 1000000000 100000000)) [])) =
     [[0x41], [0xEF, 0xBF, 0xBD], [0x42]] \<and>
   sleeps (snd (copyRunesWithPatience (Stdout (\<lambda>tr p. None))
     \<lparr>r_reads = [[0x41, 0xFF, 0x42]], r_err = EOF\<rparr>
     (projr (bePatient 3 1000000000 100000000)) [])) =
     [fst (projr (bePatient 3 1000000000 100000000) 0x41),
      fst (projr (bePatient 3 1000000000 100000000) 0xFFFD),
      fst (projr (bePatient 3 1000000000 100000000) 0x42)]"
proof -
  let ?src = "\<lparr>r_reads = [[0x41, 0xFF, 0x42]], r_err = EOF\<rparr>"
  let ?f = "projr (bePatient 3 1000000000 100000000)"
  let ?run = "copyRunesWithPatience (Stdout (\<lambda>tr p. None)) ?src ?f []"
  have run: "?run = (fst ?run, snd ?run)" by simp
  from copy_replaces_invalid_bytes [OF run]
  obtain new where n: "snd ?run = [] @ new"
    and p: "(\<forall>ev\<in>set new. \<not> failed_write ev) \<longrightarrow>
              payloads new = split_runes (input_bytes ?src) \<and>
              sleeps new = map (\<lambda>t. fst (?f (fst (DecodeRune t)))) (split_runes (input_bytes ?src))"
    by auto
  have tr: "snd ?run =
      [EvWrite ''os.Stdout'' [0x41] None, EvSync ''os.Stdout'', EvSleep 1100000000,
       EvWrite ''os.Stdout'' [0xEF, 0xBF, 0xBD] None, EvSync ''os.Stdout'', EvSleep 1500000000,
       EvWrite ''os.Stdout'' [0x42] None, EvSync ''os.Stdout'', EvSleep 1200000000]"
    by code_simp
  with n have "new = snd ?run" by simp
  with tr have "\<forall>ev\<in>set new. \<not> failed_write ev" by simp
  with p have q: "payloads new = split_runes (input_bytes ?src)"
    "sleeps new = map (\<lambda>t. fst (?f (fst (DecodeRune t)))) (split_runes (input_bytes ?src))"
    by simp_all
  have sp: "split_runes (input_bytes ?src) = [[0x41], [0xEF, 0xBF, 0xBD], [0x42]]"
    by code_simp
  have d: "fst (DecodeRune [0x41]) = 0x41" "fst (DecodeRune [0xEF, 0xBF, 0xBD]) = 0xFFFD"
    "fst (DecodeRune [0x42]) = 0x42"
    by (simp_all add: DecodeRune_def first_def acceptRanges_def)
  from q n show ?thesis by (simp add: sp d)
qed

text \<open>
  The input of the single byte \<open>FF\<close>: the output is the three bytes \<open>EF BF BD\<close>, not the
  byte \<open>FF\<close>.
\<close>

theorem copy_replaces_invalid_bytes_counterexample:
  "main \<lparr>flag_base = 1000000000, flag_step = 100000000, flag_bits = 3, flag_debug = False\<rparr>
     \<lparr>r_reads = [[0xFF]], r_err = EOF\<rparr> (\<lambda>tr p. None) =
     (0, [EvWrite ''os.Stdout'' [0xEF, 0xBF, 0xBD] None, EvSync ''os.Stdout'', EvSleep 1500000000]) \<and>
   concat (payloads (snd (main
     \<lparr>flag_base = 1000000000, flag_step = 100000000, flag_bits = 3, flag_debug = False\<rparr>
     \<lparr>r_reads = [[0xFF]], r_err = EOF\<rparr> (\<lambda>tr p. None)))) \<noteq> [0xFF]"
  by code_simp

section \<open>Properties of main\<close>






section \<open>Further properties of the copy\<close>

text \<open>
  When no write fails and every read before the last returns some bytes, the copy
  returns the error that ended the reading, and nil when that error is \<^verbatim>\<open>io.EOF\<close>.
\<close>

theorem copy_returns_read_error:
  assumes "copyRunesWithPatience dst src patience tr0 = (res, tr0 @ new)"
    and "\<forall>ev\<in>set new. \<not> failed_write ev"
    and "\<forall>c\<in>set (r_reads src). c \<noteq> []"
  shows "res = (if r_err src = EOF then None else Some (r_err src))"
  using copy_run_result [OF assms(1,2)] read_end_nonempty [OF assms(3)] by simp

theorem copy_returns_read_error_witness:
  "copyRunesWithPatience (Stdout (\<lambda>tr p. None))
     \<lparr>r_reads = [[0x41]], r_err = IOError ''read: input/output error''\<rparr> (\<lambda>r. (5, [])) [] =
   (Some (IOError ''read: input/output error''),
    [EvWrite ''os.Stdout'' [0x41] None, EvSync ''os.Stdout'', EvSleep 5])"
proof -
  let ?src = "\<lparr>r_reads = [[0x41]], r_err = IOError ''read: input/output error''\<rparr>"
  let ?run = "copyRunesWithPatience (Stdout (\<lambda>tr p. None)) ?src (\<lambda>r. (5, [])) []"
  have tr: "snd ?run = [EvWrite ''os.Stdout'' [0x41] None, EvSync ''os.Stdout'', EvSleep 5]"
    by code_simp
  then have run: "?run = (fst ?run, [] @ [EvWrite ''os.Stdout'' [0x41] None, EvSync ''os.Stdout'', EvSleep 5])"
    by (simp add: prod_eq_iff)
  have "fst ?run = (if r_err ?src = EOF then None else Some (r_err ?src))"
    by (rule copy_returns_read_error [OF run]) simp_all
  with tr show ?thesis by (simp add: prod_eq_iff)
qed

text \<open>
  When no write fails and the input is valid UTF-8, the characters \<open>cs\<close> one after
  the other, each character is one write and the bytes written are the bytes of the
  input.
\<close>

theorem copy_lossless_on_valid_input:
  assumes "copyRunesWithPatience dst src patience tr0 = (res, tr0 @ new)"
    and "\<forall>ev\<in>set new. \<not> failed_write ev"
    and "input_bytes src = concat cs" and "\<forall>t\<in>set cs. valid_char t"
  shows "payloads new = cs \<and> concat (payloads new) = input_bytes src"
proof -
  from copy_run_result [OF assms(1,2)]
  have "payloads new = split_runes (input_bytes src)" by (simp add: run_ok_def)
  also have "\<dots> = split_runes (concat cs @ [])" using assms(3) by simp
  also have "\<dots> = cs @ split_runes []" using assms(4) by (rule split_runes_concat)
  also have "\<dots> = cs" by (simp add: split_runes.simps)
  finally show ?thesis using assms(3) by simp
qed

theorem copy_lossless_on_valid_input_witness:
  "concat (payloads (snd (copyRunesWithPatience (Stdout (\<lambda>tr p. None))
     \<lparr>r_reads = [[0x41, 0x42]], r_err = EOF\<rparr> (\<lambda>r. (0, [])) []))) = [0x41, 0x42]"
proof -
  let ?src = "\<lparr>r_reads = [[0x41, 0x42]], r_err = EOF\<rparr>"
  let ?run = "copyRunesWithPatience (Stdout (\<lambda>tr p. None)) ?src (\<lambda>r. (0, [])) []"
  have tr: "snd ?run = [EvWrite ''os.Stdout'' [0x41] None, EvSync ''os.Stdout'', EvSleep 0,
      EvWrite ''os.Stdout'' [0x42] None, EvSync ''os.Stdout'', EvSleep 0]"
    by code_simp
  then have run: "?run = (fst ?run, [] @ [EvWrite ''os.Stdout'' [0x41] None, EvSync ''os.Stdout'', EvSleep 0,
      EvWrite ''os.Stdout'' [0x42] None, EvSync ''os.Stdout'', EvSleep 0])"
    by (simp add: prod_eq_iff)
  have i: "input_bytes ?src = concat [[0x41], [0x42]]" by (simp add: input_bytes_def)
  have v: "\<forall>t\<in>set [[0x41], [0x42 :: byte]]. valid_char t"
    by (simp add: valid_char_def DecodeRune_def first_def)
  from copy_lossless_on_valid_input [OF run _ i v] tr show ?thesis by simp
qed

end
